theory Spec2Isabelle
  imports Main "HOL-Library.Word"
begin

unbundle bit_operations_syntax

section \<open>cm6206ctl: register transactions and bitfield decoding\<close>

text \<open>
  A shallow embedding of \<^verbatim>\<open>cm6206ctl.c\<close>. C's \<^verbatim>\<open>uint8_t\<close> and \<^verbatim>\<open>uint16_t\<close> are
  8-bit and 16-bit words; values that C computes after integer promotion (\<^verbatim>\<open>int\<close>,
  \<^verbatim>\<open>unsigned\<close>) are 32-bit words. The return codes of the transaction functions are
  \<open>int\<close>.
\<close>

type_synonym u8 = "8 word"
type_synonym u16 = "16 word"
type_synonym u32 = "32 word"

subsection \<open>Global constants\<close>

definition NUM_REGS :: nat where
  "NUM_REGS = 6"

text \<open>Default values for registers after reset.\<close>

definition REG_DEFAULT :: "u16 list" where
  "REG_DEFAULT = [0x2000, 0x3002, 0x6004, 0x147f, 0x0000, 0x3000]"

text \<open>Register values for initialization.\<close>

definition REG_INIT :: "u16 list" where
  "REG_INIT = [0x2004, 0x3000, 0xF800, 0x147f, 0x0000, 0x3000]"

subsection \<open>The HID transport\<close>

text \<open>
  \<^verbatim>\<open>hid_write\<close> and \<^verbatim>\<open>hid_read\<close> belong to the hidapi library. They are parameters of
  the model: any pair of functions over a device state \<open>'d\<close>. \<open>hid_write\<close> gets the
  bytes to send and returns the library's \<^verbatim>\<open>int\<close> result; \<open>hid_read\<close> gets the
  requested length and returns the library's \<^verbatim>\<open>int\<close> result together with the bytes
  it stored at the start of the caller's buffer.
\<close>

record 'd hidapi =
  hid_write :: "'d \<Rightarrow> u8 list \<Rightarrow> int \<times> 'd"
  hid_read :: "'d \<Rightarrow> nat \<Rightarrow> (int \<times> u8 list) \<times> 'd"

text \<open>
  Every call of the library is recorded: \<open>Send buf r\<close> is a \<^verbatim>\<open>hid_write\<close> of \<open>buf\<close>
  that returned \<open>r\<close>, \<open>Receive n r\<close> a \<^verbatim>\<open>hid_read\<close> of up to \<open>n\<close> bytes that
  returned \<open>r\<close>.
\<close>

datatype event = Send "u8 list" int | Receive nat int

record 'd world =
  dev :: 'd
  log :: "event list"

text \<open>The bytes \<^verbatim>\<open>hid_read\<close> delivers overwrite the front of the buffer; the rest stays.\<close>

definition store_reply :: "u8 list \<Rightarrow> u8 list \<Rightarrow> u8 list" where
  "store_reply reply buf = take (length buf) reply @ drop (length reply) buf"

definition call_hid_write :: "'d hidapi \<Rightarrow> u8 list \<Rightarrow> 'd world \<Rightarrow> int \<times> 'd world" where
  "call_hid_write T buf w =
     (case hid_write T (dev w) buf of
        (r, d') \<Rightarrow> (r, \<lparr>dev = d', log = log w @ [Send buf r]\<rparr>))"

definition call_hid_read ::
  "'d hidapi \<Rightarrow> u8 list \<Rightarrow> nat \<Rightarrow> 'd world \<Rightarrow> int \<times> u8 list \<times> 'd world" where
  "call_hid_read T buf n w =
     (case hid_read T (dev w) n of
        ((r, reply), d') \<Rightarrow>
          (r, store_reply reply buf, \<lparr>dev = d', log = log w @ [Receive n r]\<rparr>))"

subsection \<open>USB read/write functions\<close>

text \<open>The initial contents of \<^verbatim>\<open>buf\<close> in \<^verbatim>\<open>cm6206_read\<close> and in \<^verbatim>\<open>cm6206_write\<close>.\<close>

definition read_request :: "u8 \<Rightarrow> u8 list" where
  "read_request regnum = [0x00, 0x30, 0x00, 0x00, regnum]"

definition write_request :: "u8 \<Rightarrow> u16 \<Rightarrow> u8 list" where
  "write_request regnum value =
     [0x00, 0x20, ucast (value AND 0xff), ucast (drop_bit 8 value), regnum]"

text \<open>
  The guard \<^verbatim>\<open>buf[0] & 0xe0 != 0x20\<close>. In C \<^verbatim>\<open>!=\<close> binds tighter than \<^verbatim>\<open>&\<close>, so the
  comparison of the two constants is evaluated first, to the \<^verbatim>\<open>int\<close> 1 or 0, and the
  byte is masked with that.
\<close>

definition c_neq :: "u32 \<Rightarrow> u32 \<Rightarrow> u32" where
  "c_neq a b = (if a \<noteq> b then 1 else 0)"

definition marker_guard :: "u8 \<Rightarrow> bool" where
  "marker_guard b0 = (ucast b0 AND c_neq 0xe0 0x20 \<noteq> (0 :: u32))"

text \<open>\<^verbatim>\<open>(((uint16_t)buf[2]) << 8) | buf[1]\<close>, stored to a \<^verbatim>\<open>uint16_t\<close>.\<close>

definition decode_value :: "u8 list \<Rightarrow> u16" where
  "decode_value buf = push_bit 8 (ucast (buf ! 2)) OR ucast (buf ! 1)"

text \<open>
  \<^verbatim>\<open>cm6206_read\<close>. The caller's \<^verbatim>\<open>*value\<close> goes in and comes out: the result is the
  return code, the contents of \<^verbatim>\<open>*value\<close> afterwards, and the world.
\<close>

definition cm6206_read ::
  "'d hidapi \<Rightarrow> u8 \<Rightarrow> u16 \<Rightarrow> 'd world \<Rightarrow> int \<times> u16 \<times> 'd world" where
  "cm6206_read T regnum value w =
     (let buf = read_request regnum in
      case call_hid_write T buf w of
        (n, w1) \<Rightarrow>
          if n \<noteq> 5 then (- 1, value, w1)
          else
            (case call_hid_read T buf 5 w1 of
               (m, buf', w2) \<Rightarrow>
                 if m \<noteq> 3 then (- 2, value, w2)
                 else if marker_guard (buf' ! 0) then (- 3, value, w2)
                 else (0, decode_value buf', w2)))"

definition cm6206_write :: "'d hidapi \<Rightarrow> u8 \<Rightarrow> u16 \<Rightarrow> 'd world \<Rightarrow> int \<times> 'd world" where
  "cm6206_write T regnum value w =
     (let buf = write_request regnum value in
      case call_hid_write T buf w of
        (n, w1) \<Rightarrow> if n \<noteq> 5 then (- 1, w1) else (0, w1))"

subsection \<open>Masked write value\<close>

text \<open>
  \<^verbatim>\<open>newvalue\<close>, and the same expression in \<^verbatim>\<open>main\<close>:
  \<^verbatim>\<open>(regbuf[cfg.reg] & ~cfg.mask) | (cfg.writeVal & cfg.mask)\<close>.
\<close>

definition newvalue :: "u16 \<Rightarrow> u16 \<Rightarrow> u16 \<Rightarrow> u16" where
  "newvalue oldvalue newmask newbits = (oldvalue AND NOT newmask) OR (newbits AND newmask)"

subsection \<open>A scripted transport\<close>

text \<open>
  A transport for concrete runs: its state holds the results the next calls of
  \<^verbatim>\<open>hid_write\<close> and of \<^verbatim>\<open>hid_read\<close> will give, in order. When a script is used
  up the call fails with \<open>-1\<close>, as hidapi reports an error.
\<close>

type_synonym script = "int list \<times> (int \<times> u8 list) list"

definition scripted :: "script hidapi" where
  "scripted =
     \<lparr>hid_write = (\<lambda>(ws, rs) buf.
        case ws of [] \<Rightarrow> (- 1, ([], rs)) | r # ws' \<Rightarrow> (r, (ws', rs))),
      hid_read = (\<lambda>(ws, rs) n.
        case rs of [] \<Rightarrow> ((- 1, []), (ws, [])) | r # rs' \<Rightarrow> (r, (ws, rs')))\<rparr>"

definition start :: "script \<Rightarrow> script world" where
  "start sc = \<lparr>dev = sc, log = []\<rparr>"

subsection \<open>The specification's reading of a transaction\<close>

text \<open>
  The specification calls a transaction a send of one 5-byte report followed by a
  receive. \<open>send_then_receive\<close> says so of the events one transaction adds to the log.
\<close>

definition send_then_receive :: "event list \<Rightarrow> bool" where
  "send_then_receive es =
     (case es of [Send buf r, Receive n m] \<Rightarrow> length buf = 5 | _ \<Rightarrow> False)"

subsection \<open>Reading all registers, initialization, masked write\<close>

text \<open>
  \<^verbatim>\<open>err(EXIT_FAILURE, "read: ...", n)\<close> and \<^verbatim>\<open>err(EXIT_FAILURE, "write: ...", n)\<close> end
  the process. A run that ends so is \<open>Inl\<close> of the failure, with the register number the
  message names, and of the world at that moment; the register buffer is gone with the
  process.
\<close>

datatype failure = Read_failure nat | Write_failure nat

text \<open>
  The loop of \<^verbatim>\<open>readAllRegisters\<close> over the register numbers still to read:
  \<^verbatim>\<open>if (cm6206_read(hid_dev, n, &regbuf[n]) < 0) err(...)\<close>.
\<close>

fun read_registers ::
  "'d hidapi \<Rightarrow> nat list \<Rightarrow> u16 list \<Rightarrow> 'd world \<Rightarrow> failure \<times> 'd world + u16 list \<times> 'd world"
where
  "read_registers T [] regbuf w = Inr (regbuf, w)"
| "read_registers T (n # ns) regbuf w =
     (case cm6206_read T (of_nat n) (regbuf ! n) w of
        (r, v, w') \<Rightarrow>
          if r < 0 then Inl (Read_failure n, w')
          else read_registers T ns (regbuf[n := v]) w')"

definition readAllRegisters ::
  "'d hidapi \<Rightarrow> u16 list \<Rightarrow> 'd world \<Rightarrow> failure \<times> 'd world + u16 list \<times> 'd world" where
  "readAllRegisters T regbuf w = read_registers T [0..<NUM_REGS] regbuf w"

text \<open>
  The loop of the \<^verbatim>\<open>cfg.cmdInit\<close> block of \<^verbatim>\<open>main\<close>:
  \<^verbatim>\<open>if (cm6206_write(hid_dev, n, REG_INIT[n]) < 0) err(...)\<close>.
\<close>

fun write_registers ::
  "'d hidapi \<Rightarrow> nat list \<Rightarrow> 'd world \<Rightarrow> failure \<times> 'd world + 'd world" where
  "write_registers T [] w = Inr w"
| "write_registers T (n # ns) w =
     (case cm6206_write T (of_nat n) (REG_INIT ! n) w of
        (r, w') \<Rightarrow>
          if r < 0 then Inl (Write_failure n, w')
          else write_registers T ns w')"

text \<open>The \<^verbatim>\<open>cfg.cmdInit\<close> block: the loop, then \<^verbatim>\<open>readAllRegisters\<close>.\<close>

definition init_registers ::
  "'d hidapi \<Rightarrow> u16 list \<Rightarrow> 'd world \<Rightarrow> failure \<times> 'd world + u16 list \<times> 'd world" where
  "init_registers T regbuf w =
     (case write_registers T [0..<NUM_REGS] w of
        Inl e \<Rightarrow> Inl e
      | Inr w' \<Rightarrow> readAllRegisters T regbuf w')"

text \<open>
  The \<^verbatim>\<open>cfg.cmdWrite\<close> block: the masked value from the buffer, one write, then
  \<^verbatim>\<open>readAllRegisters\<close>.
\<close>

definition write_masked ::
  "'d hidapi \<Rightarrow> nat \<Rightarrow> u16 \<Rightarrow> u16 \<Rightarrow> u16 list \<Rightarrow> 'd world
    \<Rightarrow> failure \<times> 'd world + u16 list \<times> 'd world" where
  "write_masked T reg writeVal msk regbuf w =
     (case cm6206_write T (of_nat reg) (newvalue (regbuf ! reg) msk writeVal) w of
        (r, w') \<Rightarrow>
          if r < 0 then Inl (Write_failure reg, w')
          else readAllRegisters T regbuf w')"

text \<open>The frames a log holds, in the order sent.\<close>

fun requests :: "event list \<Rightarrow> u8 list list" where
  "requests [] = []"
| "requests (Send buf r # es) = buf # requests es"
| "requests (Receive n r # es) = requests es"

text \<open>The events of a read, and of a write, that succeeds.\<close>

definition read_events :: "nat \<Rightarrow> event list" where
  "read_events n = [Send (read_request (of_nat n)) 5, Receive 5 3]"

definition write_events :: "nat \<Rightarrow> event list" where
  "write_events n = [Send (write_request (of_nat n) (REG_INIT ! n)) 5]"

subsection \<open>Printout of registers\<close>

text \<open>
  The printing functions take \<^verbatim>\<open>unsigned\<close> register numbers, bit numbers and widths:
  natural numbers below \<open>2 ^ 32\<close> here, with the wrap-around of C's unsigned arithmetic
  written out. An \<^verbatim>\<open>assert\<close> that fails aborts the process. A shift by 32 or more, an
  index outside an array and a write past the end of \<^verbatim>\<open>strbuf\<close> have no defined result
  in C.
\<close>

datatype fault = Assert_failed | Undefined_behaviour

definition ANSI_BOLD :: string where
  "ANSI_BOLD = CHR 0x1B # ''[1m''"

definition ANSI_TAB2 :: string where
  "ANSI_TAB2 = CHR 0x1B # ''[67G''"

text \<open>
  A printed line, as the arguments \<^verbatim>\<open>printf\<close> gets besides the constant ones:
  \<^verbatim>\<open>HILIGHT\<close>, the bit number or the last and first bit numbers, the label, the value
  text.
\<close>

datatype line =
  Bit_line string nat string string
  | Range_line string nat nat string string

text \<open>Tuple for list of value/label pairs.\<close>

record ValLabel =
  val :: int
  label :: string

text \<open>\<^verbatim>\<open>regval>>firstbit & mask\<close>, computed on the promoted operands.\<close>

definition field_value :: "u16 \<Rightarrow> nat \<Rightarrow> u32 \<Rightarrow> u32" where
  "field_value regval firstbit msk = drop_bit firstbit (ucast regval) AND msk"

text \<open>
  Unsigned addition and subtraction, modulo \<open>2 ^ 32\<close>; \<^verbatim>\<open>16-numbits\<close> and
  \<^verbatim>\<open>0xFFFF >> (16-numbits)\<close>.
\<close>

definition uadd :: "nat \<Rightarrow> nat \<Rightarrow> nat" where
  "uadd a b = (a + b) mod 2 ^ 32"

definition usub :: "nat \<Rightarrow> nat \<Rightarrow> nat" where
  "usub a b = (a + 2 ^ 32 - b) mod 2 ^ 32"

definition mask_shift :: "nat \<Rightarrow> nat" where
  "mask_shift numbits = usub 16 numbits"

definition field_mask :: "nat \<Rightarrow> u32" where
  "field_mask numbits = drop_bit (mask_shift numbits) 0xFFFF"

text \<open>\<^verbatim>\<open>print_reg_bit_special\<close>: print value of bit in register with provided label.\<close>

definition print_reg_bit_special ::
  "nat \<Rightarrow> u16 \<Rightarrow> nat \<Rightarrow> string \<Rightarrow> string \<Rightarrow> fault + line" where
  "print_reg_bit_special regnum regval bitno lbl valuetxt =
     (if NUM_REGS \<le> regnum \<or> 32 \<le> bitno then Inl Undefined_behaviour
      else
        let isdefault = (field_value regval bitno 1 = field_value (REG_DEFAULT ! regnum) bitno 1);
            HILIGHT = (if isdefault then [] else ANSI_BOLD)
        in Inr (Bit_line HILIGHT bitno lbl valuetxt))"

text \<open>\<^verbatim>\<open>print_reg_bit_range\<close>: print value of bit range in register with provided label.\<close>

definition print_reg_bit_range ::
  "nat \<Rightarrow> u16 \<Rightarrow> nat \<Rightarrow> nat \<Rightarrow> string \<Rightarrow> string \<Rightarrow> fault + line" where
  "print_reg_bit_range regnum regval firstbit numbits lbl valuetxt =
     (if \<not> 1 < numbits then Inl Assert_failed
      else if \<not> uadd firstbit numbits \<le> 16 then Inl Assert_failed
      else if 32 \<le> mask_shift numbits \<or> 32 \<le> firstbit \<or> NUM_REGS \<le> regnum
        then Inl Undefined_behaviour
      else
        let msk = field_mask numbits;
            isdefault =
              (field_value regval firstbit msk = field_value (REG_DEFAULT ! regnum) firstbit msk);
            HILIGHT = (if isdefault then [] else ANSI_BOLD)
        in Inr (Range_line HILIGHT (usub (uadd firstbit numbits) 1) firstbit lbl valuetxt))"

text \<open>
  The first loop of \<^verbatim>\<open>print_reg_bit_range_label\<close> and the line after it. The list is
  the array from \<^verbatim>\<open>labels[n]\<close> on; the loop runs while \<^verbatim>\<open>labels[n].val >= 0\<close>, and
  every entry that matches stores its label to \<^verbatim>\<open>valuetxt\<close>. At the entry that ends
  the loop, \<^verbatim>\<open>valuetxt\<close> is taken if it was set, and that entry's label otherwise. An
  array with no negative entry is read past its end.
\<close>

fun match_labels ::
  "ValLabel list \<Rightarrow> u16 \<Rightarrow> nat \<Rightarrow> u32 \<Rightarrow> string option \<Rightarrow> fault + string" where
  "match_labels [] regval firstbit msk valuetxt = Inl Undefined_behaviour"
| "match_labels (l # ls) regval firstbit msk valuetxt =
     (if 0 \<le> val l then
        if 32 \<le> firstbit then Inl Undefined_behaviour
        else match_labels ls regval firstbit msk
               (if val l = uint (field_value regval firstbit msk) then Some (label l)
                else valuetxt)
      else Inr (case valuetxt of None \<Rightarrow> label l | Some t \<Rightarrow> t))"

text \<open>\<^verbatim>\<open>%u\<close>: a number in decimal.\<close>

fun dec :: "nat \<Rightarrow> string" where
  "dec n =
     (if n < 10 then [''0123456789'' ! n] else dec (n div 10) @ [''0123456789'' ! (n mod 10)])"

text \<open>
  The second loop: \<^verbatim>\<open>%u="%s", \<close> for every entry before the one that ends the list.
\<close>

fun legend :: "ValLabel list \<Rightarrow> string" where
  "legend [] = []"
| "legend (l # ls) =
     (if 0 \<le> val l
      then dec (nat (val l)) @ ''='' @ [CHR 0x22] @ label l @ [CHR 0x22] @ '', '' @ legend ls
      else [])"

text \<open>
  \<^verbatim>\<open>print_reg_bit_range_label\<close>: print value of bit range in register with provided
  labels. \<open>verbose\<close> is \<^verbatim>\<open>cfg.verbose\<close>. \<^verbatim>\<open>strbuf\<close> has 128 bytes; it is longest just
  before the last two characters of the legend are replaced.
\<close>

definition print_reg_bit_range_label ::
  "bool \<Rightarrow> nat \<Rightarrow> u16 \<Rightarrow> nat \<Rightarrow> nat \<Rightarrow> string \<Rightarrow> ValLabel list \<Rightarrow> fault + line" where
  "print_reg_bit_range_label verbose regnum regval firstbit numbits lbl labels =
     (if 32 \<le> mask_shift numbits then Inl Undefined_behaviour
      else
        case match_labels labels regval firstbit (field_mask numbits) None of
          Inl e \<Rightarrow> Inl e
        | Inr valuetxt \<Rightarrow>
            let full = (if verbose then valuetxt @ ANSI_TAB2 @ '' {'' @ legend labels
                        else valuetxt);
                strbuf = (if verbose then butlast (butlast full) @ ''}'' else valuetxt)
            in if 127 < length full then Inl Undefined_behaviour
               else print_reg_bit_range regnum regval firstbit numbits lbl strbuf)"

subsection \<open>The specification's reading of an enumerated field\<close>

text \<open>
  The specification resolves the extracted value against the declared (value, label)
  pairs in declared order, takes the first pair whose value matches, and the fallback
  label when none does.
\<close>

definition first_match_label :: "(int \<times> string) list \<Rightarrow> string \<Rightarrow> int \<Rightarrow> string" where
  "first_match_label pairs fallback x =
     (case find (\<lambda>p. fst p = x) pairs of Some p \<Rightarrow> snd p | None \<Rightarrow> fallback)"

text \<open>What the first loop of \<^verbatim>\<open>print_reg_bit_range_label\<close> does: the last pair that matches.\<close>

definition last_match_label :: "(int \<times> string) list \<Rightarrow> string \<Rightarrow> int \<Rightarrow> string" where
  "last_match_label pairs fallback x =
     (case find (\<lambda>p. fst p = x) (rev pairs) of Some p \<Rightarrow> snd p | None \<Rightarrow> fallback)"

text \<open>The declared pairs of a label array, and its fallback label.\<close>

definition declared :: "ValLabel list \<Rightarrow> (int \<times> string) list" where
  "declared labels = map (\<lambda>l. (val l, label l)) (takeWhile (\<lambda>l. 0 \<le> val l) labels)"

definition fallback_label :: "ValLabel list \<Rightarrow> string" where
  "fallback_label labels = label (hd (dropWhile (\<lambda>l. 0 \<le> val l) labels))"

text \<open>The bits of a register value that a field of \<open>numbits\<close> bits from \<open>firstbit\<close> selects.\<close>

definition field_bits :: "u16 \<Rightarrow> nat \<Rightarrow> nat \<Rightarrow> u16" where
  "field_bits regval firstbit numbits = take_bit numbits (drop_bit firstbit regval)"

text \<open>A line is printed as default when its highlight is empty, and bold otherwise.\<close>

fun printed_default :: "line \<Rightarrow> bool" where
  "printed_default (Bit_line HILIGHT b lbl valuetxt) = (HILIGHT = [])"
| "printed_default (Range_line HILIGHT hi lo lbl valuetxt) = (HILIGHT = [])"

text \<open>The label array of \<^verbatim>\<open>print_cm6202_reg0\<close>.\<close>

definition SPDIF_OUT_HZ :: "ValLabel list" where
  "SPDIF_OUT_HZ =
     [\<lparr>val = 0, label = ''44.1 kHz''\<rparr>, \<lparr>val = 2, label = ''48 kHz''\<rparr>,
      \<lparr>val = 3, label = ''32 kHz''\<rparr>, \<lparr>val = 6, label = ''96 kHz''\<rparr>,
      \<lparr>val = - 1, label = ''Reserved''\<rparr>]"

section \<open>Lemmas\<close>

subsection \<open>The read and write transactions, case by case\<close>

lemma store_reply_Cons: "store_reply (b # bs) (c # cs) ! 0 = b"
  by (simp add: store_reply_def)

lemma marker_guard_lsb: "marker_guard b0 = bit b0 0"
proof -
  have "(ucast b0 AND (1 :: u32) \<noteq> 0) = bit (ucast b0 :: u32) 0"
    by (simp add: and_one_eq bit_0 mod_2_eq_odd)
  also have "\<dots> = bit b0 0"
    by (simp add: bit_simps)
  finally show ?thesis
    by (simp add: marker_guard_def c_neq_def)
qed

lemma cm6206_read_cases:
  assumes "hid_write T (dev w) (read_request regnum) = (n, d1)"
    and "hid_read T d1 5 = ((m, reply), d2)"
  shows "cm6206_read T regnum v w =
    (if n \<noteq> 5 then
       (- 1, v, \<lparr>dev = d1, log = log w @ [Send (read_request regnum) n]\<rparr>)
     else if m \<noteq> 3 then
       (- 2, v, \<lparr>dev = d2, log = log w @ [Send (read_request regnum) n, Receive 5 m]\<rparr>)
     else if marker_guard (store_reply reply (read_request regnum) ! 0) then
       (- 3, v, \<lparr>dev = d2, log = log w @ [Send (read_request regnum) n, Receive 5 m]\<rparr>)
     else
       (0, decode_value (store_reply reply (read_request regnum)),
        \<lparr>dev = d2, log = log w @ [Send (read_request regnum) n, Receive 5 m]\<rparr>))"
  using assms by (simp add: cm6206_read_def call_hid_write_def call_hid_read_def Let_def)

lemma cm6206_write_cases:
  assumes "hid_write T (dev w) (write_request regnum value) = (n, d1)"
  shows "cm6206_write T regnum value w =
    (if n \<noteq> 5 then - 1 else 0,
     \<lparr>dev = d1, log = log w @ [Send (write_request regnum value) n]\<rparr>)"
  using assms by (simp add: cm6206_write_def call_hid_write_def Let_def)

subsection \<open>The data bytes of a frame\<close>

lemma byte_mask: "(0xff :: u16) = mask 8"
  by (simp add: mask_eq_exp_minus_1)

lemma decode_value_bytes:
  "decode_value (s # ucast (v AND 0xff) # ucast (drop_bit 8 v) # rest) = v"
  unfolding decode_value_def byte_mask
  by simp (rule bit_eqI, auto simp: bit_simps)

lemma unat_low_byte: "unat (ucast (v AND 0xff :: u16) :: u8) = unat v mod 256"
  unfolding byte_mask
  by (simp add: unsigned_ucast_eq unsigned_take_bit_eq take_bit_eq_mod unat_mod_distrib
      flip: take_bit_eq_mask)

lemma unat_high_byte: "unat (ucast (drop_bit 8 (v :: u16)) :: u8) = unat v div 256"
proof -
  have "unat v < 2 ^ 16"
    using unsigned_less [of v] by simp
  then have "unat v div 256 < 256"
    by simp
  then show ?thesis
    by (simp add: unsigned_ucast_eq unat_drop_bit_eq drop_bit_eq_div take_bit_eq_mod
        unat_div_distrib)
qed

lemma unat_decode_value: "unat (decode_value buf) = unat (buf ! 2) * 256 + unat (buf ! 1)"
proof -
  define hi where "hi = buf ! 2"
  define lo where "lo = buf ! 1"
  have h: "unat hi < 256"
    using unsigned_less [of hi] by simp
  have l: "unat lo < 256"
    using unsigned_less [of lo] by simp
  have uh: "unat (ucast hi :: u16) = unat hi"
    using h by (simp add: unsigned_ucast_eq take_bit_eq_mod)
  have ul: "unat (ucast lo :: u16) = unat lo"
    using l by (simp add: unsigned_ucast_eq take_bit_eq_mod)
  have shifted: "unat (push_bit 8 (ucast hi :: u16)) = unat hi * 256"
    using h by (simp add: push_bit_eq_mult unat_word_ariths uh)
  have "push_bit 8 (ucast hi :: u16) OR ucast lo = push_bit 8 (ucast hi) + ucast lo"
    by (rule disjunctive_add [symmetric]) (auto simp: bit_simps dest: bit_imp_le_length)
  moreover have "unat (push_bit 8 (ucast hi :: u16) + ucast lo) = unat hi * 256 + unat lo"
    using h l by (simp add: unat_word_ariths shifted ul)
  ultimately show ?thesis
    by (simp add: decode_value_def hi_def lo_def)
qed

subsection \<open>The logs of the register loops\<close>

lemma requests_append: "requests (es @ fs) = requests es @ requests fs"
  by (induction es rule: requests.induct) simp_all

lemma cm6206_read_step:
  assumes "cm6206_read T regnum v w = (r, v', w')"
  shows "(r = 0 \<and> log w' = log w @ [Send (read_request regnum) 5, Receive 5 3])
       \<or> (r < 0 \<and> (\<exists>es. log w' = log w @ es \<and> requests es = [read_request regnum]))"
proof -
  obtain n d1 where hw: "hid_write T (dev w) (read_request regnum) = (n, d1)"
    by (cases "hid_write T (dev w) (read_request regnum)")
  obtain m reply d2 where hr: "hid_read T d1 5 = ((m, reply), d2)"
    by (cases "hid_read T d1 5") auto
  show ?thesis
    using assms unfolding cm6206_read_cases [OF hw hr]
    by (auto split: if_splits)
qed

lemma cm6206_write_step:
  assumes "cm6206_write T regnum value w = (r, w')"
  shows "(r = 0 \<and> log w' = log w @ [Send (write_request regnum value) 5])
       \<or> (r < 0 \<and> (\<exists>k. k \<noteq> 5 \<and> log w' = log w @ [Send (write_request regnum value) k]))"
proof -
  obtain n d1 where hw: "hid_write T (dev w) (write_request regnum value) = (n, d1)"
    by (cases "hid_write T (dev w) (write_request regnum value)")
  show ?thesis
    using assms unfolding cm6206_write_cases [OF hw]
    by (auto split: if_splits)
qed

lemma read_registers_Inr:
  "read_registers T ns regbuf w = Inr (regbuf', w') \<Longrightarrow>
     log w' = log w @ concat (map read_events ns) \<and> length regbuf' = length regbuf"
proof (induction ns arbitrary: regbuf w)
  case Nil
  then show ?case by simp
next
  case (Cons n ns)
  obtain r v w1 where step: "cm6206_read T (of_nat n) (regbuf ! n) w = (r, v, w1)"
    by (cases "cm6206_read T (of_nat n) (regbuf ! n) w")
  from Cons.prems step have ok: "\<not> r < 0"
    and rest: "read_registers T ns (regbuf[n := v]) w1 = Inr (regbuf', w')"
    by (auto split: if_splits)
  from cm6206_read_step [OF step] ok
  have "log w1 = log w @ read_events n"
    by (auto simp: read_events_def)
  with Cons.IH [OF rest] show ?case
    by simp
qed

lemma read_registers_Inl:
  "read_registers T ns regbuf w = Inl (f, w') \<Longrightarrow>
     \<exists>k es. k < length ns \<and> f = Read_failure (ns ! k)
       \<and> log w' = log w @ concat (map read_events (take k ns)) @ es
       \<and> requests es = [read_request (of_nat (ns ! k))]"
proof (induction ns arbitrary: regbuf w)
  case Nil
  then show ?case by simp
next
  case (Cons n ns)
  obtain r v w1 where step: "cm6206_read T (of_nat n) (regbuf ! n) w = (r, v, w1)"
    by (cases "cm6206_read T (of_nat n) (regbuf ! n) w")
  show ?case
  proof (cases "r < 0")
    case True
    with Cons.prems step have f: "f = Read_failure n" and w': "w' = w1"
      by auto
    from cm6206_read_step [OF step] True obtain es
      where "log w1 = log w @ es" "requests es = [read_request (of_nat n)]"
      by auto
    with f w' have "0 < length (n # ns) \<and> f = Read_failure ((n # ns) ! 0)
       \<and> log w' = log w @ concat (map read_events (take 0 (n # ns))) @ es
       \<and> requests es = [read_request (of_nat ((n # ns) ! 0))]"
      by simp
    then show ?thesis by blast
  next
    case False
    with Cons.prems step
    have rest: "read_registers T ns (regbuf[n := v]) w1 = Inl (f, w')"
      by auto
    from cm6206_read_step [OF step] False
    have w1: "log w1 = log w @ read_events n"
      by (auto simp: read_events_def)
    from Cons.IH [OF rest] obtain k es where k: "k < length ns" "f = Read_failure (ns ! k)"
      "log w' = log w1 @ concat (map read_events (take k ns)) @ es"
      "requests es = [read_request (of_nat (ns ! k))]"
      by blast
    then have "Suc k < length (n # ns) \<and> f = Read_failure ((n # ns) ! Suc k)
       \<and> log w' = log w @ concat (map read_events (take (Suc k) (n # ns))) @ es
       \<and> requests es = [read_request (of_nat ((n # ns) ! Suc k))]"
      using w1 by simp
    then show ?thesis by blast
  qed
qed

lemma write_registers_Inr:
  "write_registers T ns w = Inr w' \<Longrightarrow> log w' = log w @ concat (map write_events ns)"
proof (induction ns arbitrary: w)
  case Nil
  then show ?case by simp
next
  case (Cons n ns)
  obtain r w1 where step: "cm6206_write T (of_nat n) (REG_INIT ! n) w = (r, w1)"
    by (cases "cm6206_write T (of_nat n) (REG_INIT ! n) w")
  from Cons.prems step have ok: "\<not> r < 0"
    and rest: "write_registers T ns w1 = Inr w'"
    by (auto split: if_splits)
  from cm6206_write_step [OF step] ok
  have "log w1 = log w @ write_events n"
    by (auto simp: write_events_def)
  with Cons.IH [OF rest] show ?case
    by simp
qed

lemma write_registers_Inl:
  "write_registers T ns w = Inl (f, w') \<Longrightarrow>
     \<exists>k r. k < length ns \<and> f = Write_failure (ns ! k) \<and> r \<noteq> 5
       \<and> log w' = log w @ concat (map write_events (take k ns))
            @ [Send (write_request (of_nat (ns ! k)) (REG_INIT ! (ns ! k))) r]"
proof (induction ns arbitrary: w)
  case Nil
  then show ?case by simp
next
  case (Cons n ns)
  obtain r w1 where step: "cm6206_write T (of_nat n) (REG_INIT ! n) w = (r, w1)"
    by (cases "cm6206_write T (of_nat n) (REG_INIT ! n) w")
  show ?case
  proof (cases "r < 0")
    case True
    with Cons.prems step have f: "f = Write_failure n" and w': "w' = w1"
      by auto
    from cm6206_write_step [OF step] True obtain k
      where "k \<noteq> 5" "log w1 = log w @ [Send (write_request (of_nat n) (REG_INIT ! n)) k]"
      by auto
    with f w' have "0 < length (n # ns) \<and> f = Write_failure ((n # ns) ! 0) \<and> k \<noteq> 5
       \<and> log w' = log w @ concat (map write_events (take 0 (n # ns)))
            @ [Send (write_request (of_nat ((n # ns) ! 0)) (REG_INIT ! ((n # ns) ! 0))) k]"
      by simp
    then show ?thesis by blast
  next
    case False
    with Cons.prems step
    have rest: "write_registers T ns w1 = Inl (f, w')"
      by auto
    from cm6206_write_step [OF step] False
    have w1: "log w1 = log w @ write_events n"
      by (auto simp: write_events_def)
    from Cons.IH [OF rest] obtain k r where k: "k < length ns" "f = Write_failure (ns ! k)"
      "r \<noteq> 5"
      "log w' = log w1 @ concat (map write_events (take k ns))
            @ [Send (write_request (of_nat (ns ! k)) (REG_INIT ! (ns ! k))) r]"
      by blast
    then have "Suc k < length (n # ns) \<and> f = Write_failure ((n # ns) ! Suc k) \<and> r \<noteq> 5
       \<and> log w' = log w @ concat (map write_events (take (Suc k) (n # ns)))
            @ [Send (write_request (of_nat ((n # ns) ! Suc k)) (REG_INIT ! ((n # ns) ! Suc k))) r]"
      using w1 by simp
    then show ?thesis by blast
  qed
qed


lemma read_registers_append:
  "read_registers T (ns @ ms) regbuf w =
     (case read_registers T ns regbuf w of
        Inl e \<Rightarrow> Inl e
      | Inr (regbuf', w') \<Rightarrow> read_registers T ms regbuf' w')"
  by (induction ns arbitrary: regbuf w) (auto split: prod.splits)

lemma write_registers_append:
  "write_registers T (ns @ ms) w =
     (case write_registers T ns w of
        Inl e \<Rightarrow> Inl e
      | Inr w' \<Rightarrow> write_registers T ms w')"
  by (induction ns arbitrary: w) (auto split: prod.splits)

lemma register_numbers: "[0..<NUM_REGS] = [0, 1, 2, 3, 4, 5]"
  by (simp add: NUM_REGS_def upt_rec)

lemma upt_split: "k < n \<Longrightarrow> [0..<n] = [0..<k] @ k # [Suc k..<n]"
proof -
  assume "k < n"
  then have "[0..<n] = [0..<k] @ [k..<n]"
    using upt_add_eq_append [of 0 k "n - k"] by simp
  also have "[k..<n] = k # [Suc k..<n]"
    using \<open>k < n\<close> by (rule upt_conv_Cons)
  finally show ?thesis .
qed

lemma readAllRegisters_Inr:
  assumes "readAllRegisters T regbuf w = Inr (regbuf', w')"
  shows "log w' = log w @ concat (map read_events [0, 1, 2, 3, 4, 5])"
  using read_registers_Inr [of T "[0..<NUM_REGS]" regbuf w regbuf' w'] assms
  by (simp add: readAllRegisters_def register_numbers)

lemma readAllRegisters_Inl:
  assumes "readAllRegisters T regbuf w = Inl (f, w')"
  shows "\<exists>k es. k < 6 \<and> f = Read_failure k
     \<and> log w' = log w @ concat (map read_events [0..<k]) @ es
     \<and> requests es = [read_request (of_nat k)]"
proof -
  from assms have "read_registers T [0..<NUM_REGS] regbuf w = Inl (f, w')"
    by (simp add: readAllRegisters_def)
  from read_registers_Inl [OF this] obtain k es where
    k: "k < NUM_REGS" "f = Read_failure k"
      "log w' = log w @ concat (map read_events (take k [0..<NUM_REGS])) @ es"
      "requests es = [read_request (of_nat k)]"
    by auto
  from k(1) have "take k [0..<NUM_REGS] = [0..<k]"
    by simp
  with k have "k < 6 \<and> f = Read_failure k
       \<and> log w' = log w @ concat (map read_events [0..<k]) @ es
       \<and> requests es = [read_request (of_nat k)]"
    by (simp add: NUM_REGS_def)
  then show ?thesis
    by blast
qed

lemma write_all_Inr:
  assumes "write_registers T [0..<NUM_REGS] w = Inr w'"
  shows "log w' = log w @ concat (map write_events [0, 1, 2, 3, 4, 5])"
  using write_registers_Inr [OF assms] by (simp add: register_numbers)

lemma write_all_Inl:
  assumes "write_registers T [0..<NUM_REGS] w = Inl (f, w')"
  shows "\<exists>k r. k < 6 \<and> f = Write_failure k \<and> r \<noteq> 5
     \<and> log w' = log w @ concat (map write_events [0..<k])
          @ [Send (write_request (of_nat k) (REG_INIT ! k)) r]"
proof -
  from write_registers_Inl [OF assms] obtain k r where
    k: "k < NUM_REGS" "f = Write_failure k" "r \<noteq> 5"
      "log w' = log w @ concat (map write_events (take k [0..<NUM_REGS]))
          @ [Send (write_request (of_nat k) (REG_INIT ! k)) r]"
    by auto
  from k(1) have "take k [0..<NUM_REGS] = [0..<k]"
    by simp
  with k have "k < 6 \<and> f = Write_failure k \<and> r \<noteq> 5
       \<and> log w' = log w @ concat (map write_events [0..<k])
          @ [Send (write_request (of_nat k) (REG_INIT ! k)) r]"
    by (simp add: NUM_REGS_def)
  then show ?thesis
    by blast
qed

subsection \<open>Fields of a register value\<close>

lemma uadd_small: "a + b < 2 ^ 32 \<Longrightarrow> uadd a b = a + b"
  unfolding uadd_def by (rule mod_less)

lemma wrap_sub:
  fixes a b M :: nat
  assumes "b \<le> a" and "a < M"
  shows "(a + M - b) mod M = a - b"
proof -
  from assms have "a + M - b = (a - b) + M"
    by simp
  then have "(a + M - b) mod M = (a - b) mod M"
    by simp
  also from assms have "\<dots> = a - b"
    by simp
  finally show ?thesis .
qed

lemma usub_small: "b \<le> a \<Longrightarrow> a < 2 ^ 32 \<Longrightarrow> usub a b = a - b"
  unfolding usub_def by (rule wrap_sub)

lemma sixteen_small: "(16 :: nat) < 2 ^ 32"
  by simp

lemma mask_shift_small: "numbits \<le> 16 \<Longrightarrow> mask_shift numbits = 16 - numbits"
  unfolding mask_shift_def by (rule usub_small [OF _ sixteen_small])

lemma field_mask_eq: "numbits \<le> 16 \<Longrightarrow> field_mask numbits = mask numbits"
proof -
  assume n: "numbits \<le> 16"
  have "(0xFFFF :: u32) = mask 16"
    by (simp add: mask_eq_exp_minus_1)
  then have "field_mask numbits = drop_bit (16 - numbits) (mask 16)"
    using n by (simp add: field_mask_def mask_shift_small)
  also have "\<dots> = mask numbits"
    using n by (intro bit_eqI) (auto simp: bit_simps)
  finally show ?thesis .
qed

lemma field_value_bits:
  "field_value regval firstbit (mask numbits) = ucast (field_bits regval firstbit numbits)"
  unfolding field_value_def field_bits_def
  by (rule bit_eqI) (auto simp: bit_simps dest: bit_imp_le_length)

lemma ucast_u16_inj: "((ucast (a :: u16) :: u32) = ucast b) = (a = b)"
proof
  assume eq: "(ucast a :: u32) = ucast b"
  show "a = b"
  proof (rule bit_eqI)
    fix n assume "possible_bit TYPE(u16) n"
    then have "n < 32" by (simp add: possible_bit_def)
    with eq have "bit (ucast a :: u32) n = bit (ucast b :: u32) n" by simp
    then show "bit a n = bit b n"
      using \<open>possible_bit TYPE(u16) n\<close> by (simp add: bit_simps possible_bit_def)
  qed
qed simp

lemma field_bits_eq_iff:
  "(field_bits a firstbit numbits = field_bits b firstbit numbits) =
     (\<forall>i<numbits. bit a (firstbit + i) = bit b (firstbit + i))"
proof -
  have sel: "bit (field_bits x firstbit numbits) i = (i < numbits \<and> bit x (firstbit + i))"
    for x i
    by (auto simp: field_bits_def bit_simps)
  show ?thesis
  proof
    assume eq: "field_bits a firstbit numbits = field_bits b firstbit numbits"
    show "\<forall>i<numbits. bit a (firstbit + i) = bit b (firstbit + i)"
    proof (intro allI impI)
      fix i assume "i < numbits"
      with sel [of a i] sel [of b i] eq show "bit a (firstbit + i) = bit b (firstbit + i)"
        by simp
    qed
  next
    assume "\<forall>i<numbits. bit a (firstbit + i) = bit b (firstbit + i)"
    then show "field_bits a firstbit numbits = field_bits b firstbit numbits"
      by (intro bit_eqI) (auto simp: sel)
  qed
qed

lemma field_value_eq_iff:
  "(field_value a firstbit (mask numbits) = field_value b firstbit (mask numbits)) =
     (field_bits a firstbit numbits = field_bits b firstbit numbits)"
  by (simp add: field_value_bits ucast_u16_inj)

lemma one_mask: "(1 :: u32) = mask 1"
  by simp

lemma field_value_bit_eq_iff:
  "(field_value a bitno 1 = field_value b bitno 1) = (bit a bitno = bit b bitno)"
  unfolding one_mask field_value_eq_iff field_bits_eq_iff
  by simp

lemma ANSI_BOLD_nonempty: "ANSI_BOLD \<noteq> []"
  by (simp add: ANSI_BOLD_def)

lemma print_reg_bit_special_eq:
  assumes "regnum < NUM_REGS" and "bitno < 16"
  shows "print_reg_bit_special regnum regval bitno lbl valuetxt =
     Inr (Bit_line (if bit regval bitno = bit (REG_DEFAULT ! regnum) bitno then [] else ANSI_BOLD)
            bitno lbl valuetxt)"
  using assms by (simp add: print_reg_bit_special_def field_value_bit_eq_iff)

lemma print_reg_bit_range_eq:
  assumes "regnum < NUM_REGS" and "1 < numbits" and "firstbit + numbits \<le> 16"
  shows "print_reg_bit_range regnum regval firstbit numbits lbl valuetxt =
     Inr (Range_line
            (if field_bits regval firstbit numbits = field_bits (REG_DEFAULT ! regnum) firstbit numbits
             then [] else ANSI_BOLD)
            (firstbit + numbits - 1) firstbit lbl valuetxt)"
proof -
  from assms have n: "numbits \<le> 16" and f: "firstbit < 32"
    by simp_all
  have lt: "firstbit + numbits < 2 ^ 32"
    using assms(3) sixteen_small by (rule le_less_trans)
  have sum: "uadd firstbit numbits = firstbit + numbits"
    using lt by (rule uadd_small)
  have hi: "usub (firstbit + numbits) 1 = firstbit + numbits - 1"
    using assms(2) lt by (intro usub_small) simp_all
  have sh: "mask_shift numbits = 16 - numbits"
    using n by (rule mask_shift_small)
  have m: "field_mask numbits = mask numbits"
    using n by (rule field_mask_eq)
  have guards: "(\<not> 1 < numbits) = False" "(\<not> firstbit + numbits \<le> 16) = False"
    "(32 \<le> 16 - numbits \<or> 32 \<le> firstbit \<or> NUM_REGS \<le> regnum) = False"
    using assms f by simp_all
  show ?thesis
    unfolding print_reg_bit_range_def sum sh m Let_def field_value_eq_iff hi guards
    by (simp only: if_False)
qed

subsection \<open>The label of an enumerated field\<close>

lemma find_snoc:
  "find P (xs @ [y]) = (case find P xs of Some x \<Rightarrow> Some x | None \<Rightarrow> if P y then Some y else None)"
  by (induction xs) simp_all

lemma declared_Cons:
  "declared (l # ls) = (if 0 \<le> val l then (val l, label l) # declared ls else [])"
  by (simp add: declared_def)

lemma fallback_label_Cons:
  "fallback_label (l # ls) = (if 0 \<le> val l then fallback_label ls else label l)"
  by (simp add: fallback_label_def)

lemma match_labels_eq:
  assumes "firstbit < 32" and "\<exists>l\<in>set ls. val l < 0"
  shows "match_labels ls regval firstbit msk acc =
     Inr (case find (\<lambda>p. fst p = uint (field_value regval firstbit msk)) (rev (declared ls)) of
            Some p \<Rightarrow> snd p
          | None \<Rightarrow> (case acc of None \<Rightarrow> fallback_label ls | Some t \<Rightarrow> t))"
  using assms(2)
proof (induction ls arbitrary: acc)
  case Nil
  then show ?case by simp
next
  case (Cons l ls)
  show ?case
  proof (cases "0 \<le> val l")
    case True
    with Cons.prems have "\<exists>l\<in>set ls. val l < 0"
      by auto
    note IH = Cons.IH [OF this]
    show ?thesis
      using True assms(1)
      by (simp add: IH declared_Cons fallback_label_Cons find_snoc split: option.splits)
  next
    case False
    then show ?thesis
      by (simp add: declared_Cons fallback_label_Cons split: option.splits)
  qed
qed

lemma find_fst_None:
  assumes "\<forall>q\<in>set ps. fst q \<noteq> x"
  shows "find (\<lambda>p. fst p = x) (rev ps) = None"
  unfolding find_None_iff using assms by auto

lemma find_rev_distinct:
  "distinct (map fst ps) \<Longrightarrow> find (\<lambda>p. fst p = x) (rev ps) = find (\<lambda>p. fst p = x) ps"
proof (induction ps)
  case Nil
  then show ?case by simp
next
  case (Cons p ps)
  show ?case
  proof (cases "fst p = x")
    case True
    from Cons.prems have "fst p \<notin> fst ` set ps"
      by simp
    with True have "\<forall>q\<in>set ps. fst q \<noteq> x"
      by (auto simp: image_iff)
    then have "find (\<lambda>p. fst p = x) (rev ps) = None"
      by (rule find_fst_None)
    with True show ?thesis
      by (simp add: find_snoc)
  next
    case False
    with Cons show ?thesis
      by (simp add: find_snoc split: option.splits)
  qed
qed

lemma uint_field_value:
  "uint (field_value regval firstbit (mask numbits)) = uint (field_bits regval firstbit numbits)"
proof -
  have "uint (ucast (field_bits regval firstbit numbits) :: u32) =
      uint (field_bits regval firstbit numbits)"
    by (rule bit_eqI) (auto simp: bit_simps dest: bit_imp_le_length)
  then show ?thesis
    by (simp add: field_value_bits)
qed

lemma unat_field_bits:
  "unat (field_bits regval firstbit numbits) = (unat regval div 2 ^ firstbit) mod 2 ^ numbits"
proof -
  have "unat (field_bits regval firstbit numbits) =
      take_bit numbits (unat (drop_bit firstbit regval))"
    by (simp only: field_bits_def unsigned_take_bit_eq)
  also have "\<dots> = take_bit numbits (drop_bit firstbit (unat regval))"
    by (simp only: unat_drop_bit_eq)
  also have "\<dots> = (unat regval div 2 ^ firstbit) mod 2 ^ numbits"
    by (simp only: take_bit_eq_mod drop_bit_eq_div)
  finally show ?thesis .
qed

lemmas printout_defs = print_reg_bit_range_label_def print_reg_bit_range_def NUM_REGS_def REG_DEFAULT_def
      field_value_def field_mask_def mask_shift_def uadd_def usub_def ANSI_BOLD_def
      SPDIF_OUT_HZ_def declared_def fallback_label_def last_match_label_def first_match_label_def
      field_bits_def

section \<open>Properties\<close>

text \<open>
  C1. For every 16-bit current value, write value and mask, the masked value is
  \<open>(current AND NOT mask) OR (write AND mask)\<close>. It agrees with the write value on every
  bit the mask selects and with the current value on every other bit; the mask
  \<open>0xFFFF\<close> gives the write value and the mask \<open>0\<close> the current value. The function is
  total and touches no device.
\<close>

theorem newvalue_masked:
  "newvalue current msk wv = (current AND NOT msk) OR (wv AND msk)
   \<and> newvalue current msk wv AND msk = wv AND msk
   \<and> newvalue current msk wv AND NOT msk = current AND NOT msk
   \<and> bit (newvalue current msk wv) i = (if bit msk i then bit wv i else bit current i)
   \<and> newvalue current 0xFFFF wv = wv
   \<and> newvalue current 0 wv = current"
proof -
  have full: "(0xFFFF :: u16) = - 1" by simp
  have a: "newvalue current msk wv AND msk = wv AND msk"
    unfolding newvalue_def by (rule bit_eqI) (auto simp: bit_simps)
  have b: "newvalue current msk wv AND NOT msk = current AND NOT msk"
    unfolding newvalue_def by (rule bit_eqI) (auto simp: bit_simps)
  have c: "bit (newvalue current msk wv) i = (if bit msk i then bit wv i else bit current i)"
    unfolding newvalue_def by (auto simp: bit_simps dest: bit_imp_le_length)
  have d: "newvalue current 0xFFFF wv = wv"
    unfolding newvalue_def full by simp
  have e: "newvalue current 0 wv = current"
    unfolding newvalue_def by simp
  from a b c d e show ?thesis by (simp add: newvalue_def)
qed

text \<open>
  C3. The marker guard \<^verbatim>\<open>buf[0] & 0xe0 != 0x20\<close> of \<^verbatim>\<open>cm6206_read\<close> tests
  \<^verbatim>\<open>buf[0] & 1\<close>, for every byte. So for every reply that reaches the guard (the
  request was sent in full and three bytes came back, the first being \<open>b0\<close>), the read
  returns \<open>-3\<close> if and only if the least significant bit of \<open>b0\<close> is 1, and returns
  \<open>0\<close> otherwise: the bits \<open>0xe0\<close> of \<open>b0\<close> never decide, and a reply whose high bits
  are not \<open>0x20\<close> is not rejected for it.
\<close>

theorem cm6206_read_marker_lsb:
  assumes "hid_write T (dev w) (read_request regnum) = (5, d1)"
    and "hid_read T d1 5 = ((3, b0 # rest), d2)"
  shows "marker_guard b0 = (b0 AND 1 \<noteq> 0)
    \<and> marker_guard b0 = bit b0 0
    \<and> marker_guard (b0 AND 1) = marker_guard b0
    \<and> (fst (cm6206_read T regnum v w) = - 3) = bit b0 0
    \<and> (fst (cm6206_read T regnum v w) = 0) = (\<not> bit b0 0)
    \<and> (b0 AND 0xe0 \<noteq> 0x20 \<and> \<not> bit b0 0 \<longrightarrow> fst (cm6206_read T regnum v w) = 0)"
proof -
  have one: "(b0 AND 1 \<noteq> 0) = bit b0 0"
    by (simp add: and_one_eq bit_0 mod_2_eq_odd)
  have low: "bit (b0 AND 1) 0 = bit b0 0"
    by (simp add: bit_simps)
  have first: "store_reply (b0 # rest) (read_request regnum) ! 0 = b0"
    by (simp add: read_request_def store_reply_Cons)
  have run: "fst (cm6206_read T regnum v w) = (if bit b0 0 then - 3 else 0)"
    by (simp add: cm6206_read_cases [OF assms] first marker_guard_lsb)
  show ?thesis
    by (simp add: run one low marker_guard_lsb)
qed

theorem cm6206_read_marker_lsb_witness:
  "fst (cm6206_read scripted 0 0 (start ([5], [(3, [0x21, 0x34, 0x12])]))) = - 3
   \<and> bit (0x21 :: u8) 0
   \<and> fst (cm6206_read scripted 0 0 (start ([5], [(3, [0x00, 0x34, 0x12])]))) = 0
   \<and> (0x00 :: u8) AND 0xe0 \<noteq> 0x20"
  using cm6206_read_marker_lsb [of scripted "start ([5], [(3, [0x21, 0x34, 0x12])])" 0
      "([], [(3, [0x21, 0x34, 0x12])])" "0x21" "[0x34, 0x12]" "([], [])" 0]
    cm6206_read_marker_lsb [of scripted "start ([5], [(3, [0x00, 0x34, 0x12])])" 0
      "([], [(3, [0x00, 0x34, 0x12])])" "0x00" "[0x34, 0x12]" "([], [])" 0]
  by (simp add: scripted_def start_def)

text \<open>
  C5, as the code has it. \<^verbatim>\<open>cm6206_read\<close> returns \<open>-1\<close> exactly when \<^verbatim>\<open>hid_write\<close>
  returns anything but 5, in particular fewer than the 5 bytes requested. It returns
  \<open>-2\<close> exactly when the send returned 5 and \<^verbatim>\<open>hid_read\<close> returns anything but 3: fewer
  than 3 bytes, and also 4 or 5 bytes. Only a receive of exactly 3 bytes gets past the
  length check.
\<close>

theorem cm6206_read_short_errors:
  assumes "hid_write T (dev w) (read_request regnum) = (n, d1)"
    and "hid_read T d1 5 = ((m, reply), d2)"
  shows "(fst (cm6206_read T regnum v w) = - 1) = (n \<noteq> 5)
    \<and> (n < 5 \<longrightarrow> fst (cm6206_read T regnum v w) = - 1)
    \<and> (fst (cm6206_read T regnum v w) = - 2) = (n = 5 \<and> m \<noteq> 3)
    \<and> (n = 5 \<and> m < 3 \<longrightarrow> fst (cm6206_read T regnum v w) = - 2)
    \<and> (n = 5 \<and> 3 < m \<longrightarrow> fst (cm6206_read T regnum v w) = - 2)
    \<and> (n = 5 \<and> m = 3 \<longrightarrow> fst (cm6206_read T regnum v w) \<in> {0, - 3})"
  by (simp add: cm6206_read_cases [OF assms])

theorem cm6206_read_short_errors_witness:
  "fst (cm6206_read scripted 1 0 (start ([4], [(3, [0x20, 0x34, 0x12])]))) = - 1
   \<and> fst (cm6206_read scripted 1 0 (start ([5], [(2, [0x20, 0x34])]))) = - 2
   \<and> fst (cm6206_read scripted 1 0 (start ([5], [(4, [0x20, 0x34, 0x12, 0x00])]))) = - 2
   \<and> fst (cm6206_read scripted 1 0 (start ([5], [(3, [0x20, 0x34, 0x12])]))) = 0"
  using cm6206_read_short_errors [of scripted "start ([4], [(3, [0x20, 0x34, 0x12])])" 1
      4 "([], [(3, [0x20, 0x34, 0x12])])" 3 "[0x20, 0x34, 0x12]" "([], [])" 0]
    cm6206_read_short_errors [of scripted "start ([5], [(2, [0x20, 0x34])])" 1
      5 "([], [(2, [0x20, 0x34])])" 2 "[0x20, 0x34]" "([], [])" 0]
    cm6206_read_short_errors [of scripted "start ([5], [(4, [0x20, 0x34, 0x12, 0x00])])" 1
      5 "([], [(4, [0x20, 0x34, 0x12, 0x00])])" 4 "[0x20, 0x34, 0x12, 0x00]" "([], [])" 0]
    cm6206_read_short_errors [of scripted "start ([5], [(3, [0x20, 0x34, 0x12])])" 1
      5 "([], [(3, [0x20, 0x34, 0x12])])" 3 "[0x20, 0x34, 0x12]" "([], [])" 0]
  by (simp add: cm6206_read_def call_hid_write_def call_hid_read_def scripted_def start_def
      read_request_def store_reply_def marker_guard_def c_neq_def)

text \<open>
  C5, as the specification states it, fails: the send transfers all 5 bytes, the receive
  returns 5 bytes, which is at least 3, with the marker \<open>0x20\<close> in front, and the read
  still returns the short-read error \<open>-2\<close>.
\<close>

theorem cm6206_read_long_reply_counterexample:
  "(3 :: int) \<le> 5
   \<and> fst (cm6206_read scripted 1 0
        (start ([5], [(5, [0x20, 0x34, 0x12, 0x00, 0x00])]))) = - 2"
  by (simp add: cm6206_read_def call_hid_write_def call_hid_read_def scripted_def start_def
      read_request_def)

text \<open>
  C10. \<^verbatim>\<open>cm6206_read\<close> returns one of \<open>0\<close>, \<open>-1\<close>, \<open>-2\<close>, \<open>-3\<close>. Whenever the
  result is not \<open>0\<close>, the caller's \<^verbatim>\<open>*value\<close> is what it was before the call; the
  decoded register value is stored on the success path only, where the result is \<open>0\<close>.
\<close>

theorem cm6206_read_error_keeps_value:
  "fst (cm6206_read T regnum v w) \<in> {0, - 1, - 2, - 3}
   \<and> (fst (cm6206_read T regnum v w) \<noteq> 0 \<longrightarrow> fst (snd (cm6206_read T regnum v w)) = v)
   \<and> (fst (cm6206_read T regnum v w) < 0 \<longrightarrow> fst (snd (cm6206_read T regnum v w)) = v)
   \<and> (fst (cm6206_read T regnum v w) = 0 \<longrightarrow>
        fst (snd (cm6206_read T regnum v w)) =
          decode_value
            (store_reply
               (snd (fst (hid_read T (snd (hid_write T (dev w) (read_request regnum))) 5)))
               (read_request regnum)))"
proof -
  obtain n d1 where hw: "hid_write T (dev w) (read_request regnum) = (n, d1)"
    by (cases "hid_write T (dev w) (read_request regnum)")
  obtain m reply d2 where hr: "hid_read T d1 5 = ((m, reply), d2)"
    by (cases "hid_read T d1 5") auto
  show ?thesis
    by (simp add: cm6206_read_cases [OF hw hr] hw hr)
qed

theorem cm6206_read_error_keeps_value_witness:
  "cm6206_read scripted 2 0xBEEF (start ([- 1], [])) = (- 1, 0xBEEF, \<lparr>dev = ([], []),
      log = [Send [0x00, 0x30, 0x00, 0x00, 2] (- 1)]\<rparr>)
   \<and> fst (snd (cm6206_read scripted 2 0xBEEF (start ([5], [(1, [0x20])])))) = 0xBEEF
   \<and> fst (cm6206_read scripted 2 0xBEEF (start ([5], [(1, [0x20])]))) = - 2
   \<and> fst (snd (cm6206_read scripted 2 0xBEEF (start ([5], [(3, [0x01, 0x34, 0x12])])))) = 0xBEEF
   \<and> fst (cm6206_read scripted 2 0xBEEF (start ([5], [(3, [0x01, 0x34, 0x12])]))) = - 3
   \<and> cm6206_read scripted 2 0xBEEF (start ([5], [(3, [0x20, 0x34, 0x12])])) =
       (0, 0x1234, \<lparr>dev = ([], []),
          log = [Send [0x00, 0x30, 0x00, 0x00, 2] 5, Receive 5 3]\<rparr>)"
  using cm6206_read_error_keeps_value [of scripted 2 "0xBEEF" "start ([- 1], [])"]
    cm6206_read_error_keeps_value [of scripted 2 "0xBEEF" "start ([5], [(1, [0x20])])"]
    cm6206_read_error_keeps_value [of scripted 2 "0xBEEF"
      "start ([5], [(3, [0x01, 0x34, 0x12])])"]
  by (simp add: cm6206_read_def call_hid_write_def call_hid_read_def scripted_def start_def
      read_request_def store_reply_def marker_guard_def c_neq_def decode_value_def)

text \<open>
  C6. For every register index \<open>idx\<close> and every 16-bit value \<open>v\<close>: the frame
  \<^verbatim>\<open>cm6206_read\<close> sends is \<open>[0x00, 0x30, 0x00, 0x00, idx]\<close>; the frame \<^verbatim>\<open>cm6206_write\<close>
  sends is \<open>[0x00, 0x20, v AND 0xFF, v >> 8, idx]\<close>, its data bytes being \<open>v mod 256\<close>
  and \<open>v div 256\<close>; the value decoded from a reply is \<open>buf[2] * 256 + buf[1]\<close>, so a
  reply that carries the two data bytes of \<open>v\<close> at offsets 1 and 2 decodes to \<open>v\<close>, and
  a read whose 3-byte reply passes the guard stores exactly \<open>v\<close>.
\<close>

theorem frames_round_trip:
  "read_request idx = [0x00, 0x30, 0x00, 0x00, idx]
   \<and> write_request idx v = [0x00, 0x20, ucast (v AND 0xFF), ucast (drop_bit 8 v), idx]
   \<and> unat (write_request idx v ! 2) = unat v mod 256
   \<and> unat (write_request idx v ! 3) = unat v div 256
   \<and> log (snd (cm6206_write T idx v w)) =
       log w @ [Send [0x00, 0x20, ucast (v AND 0xFF), ucast (drop_bit 8 v), idx]
         (fst (hid_write T (dev w) (write_request idx v)))]
   \<and> take (Suc (length (log w))) (log (snd (snd (cm6206_read T idx v0 w)))) =
       log w @ [Send [0x00, 0x30, 0x00, 0x00, idx]
         (fst (hid_write T (dev w) (read_request idx)))]
   \<and> unat (decode_value buf) = unat (buf ! 2) * 256 + unat (buf ! 1)
   \<and> decode_value (s # write_request idx v ! 2 # write_request idx v ! 3 # rest) = v
   \<and> (hid_write T (dev w) (read_request idx) = (5, d1)
        \<and> hid_read T d1 5 = ((3, [s, ucast (v AND 0xFF), ucast (drop_bit 8 v)]), d2)
        \<and> \<not> bit s 0
      \<longrightarrow> fst (cm6206_read T idx v0 w) = 0 \<and> fst (snd (cm6206_read T idx v0 w)) = v)"
proof -
  have wr: "log (snd (cm6206_write T idx v w)) =
      log w @ [Send [0x00, 0x20, ucast (v AND 0xFF), ucast (drop_bit 8 v), idx]
        (fst (hid_write T (dev w) (write_request idx v)))]"
    by (cases "hid_write T (dev w) (write_request idx v)")
      (simp add: cm6206_write_def call_hid_write_def write_request_def Let_def)
  have rd: "take (Suc (length (log w))) (log (snd (snd (cm6206_read T idx v0 w)))) =
      log w @ [Send [0x00, 0x30, 0x00, 0x00, idx]
        (fst (hid_write T (dev w) (read_request idx)))]"
  proof -
    obtain n d1 where hw: "hid_write T (dev w) (read_request idx) = (n, d1)"
      by (cases "hid_write T (dev w) (read_request idx)")
    obtain m reply d2 where hr: "hid_read T d1 5 = ((m, reply), d2)"
      by (cases "hid_read T d1 5") auto
    show ?thesis
      by (simp add: cm6206_read_cases [OF hw hr] hw) (simp add: read_request_def)
  qed
  have rt: "fst (cm6206_read T idx v0 w) = 0 \<and> fst (snd (cm6206_read T idx v0 w)) = v"
    if hw: "hid_write T (dev w) (read_request idx) = (5, d1)"
      and hr: "hid_read T d1 5 = ((3, [s, ucast (v AND 0xFF), ucast (drop_bit 8 v)]), d2)"
      and even: "\<not> bit s 0"
  proof -
    have buf: "store_reply [s, ucast (v AND 0xFF), ucast (drop_bit 8 v)] (read_request idx) =
        s # ucast (v AND 0xFF) # ucast (drop_bit 8 v) # [0x00, idx]"
      by (simp add: store_reply_def read_request_def)
    show ?thesis
      using even
      by (simp add: cm6206_read_cases [OF hw hr] buf marker_guard_lsb decode_value_bytes)
  qed
  have dec: "decode_value (s # write_request idx v ! 2 # write_request idx v ! 3 # rest) = v"
    by (simp add: write_request_def decode_value_bytes)
  show ?thesis
    using wr rd rt dec
    by (simp add: read_request_def write_request_def unat_low_byte unat_high_byte
        unat_decode_value)
qed

theorem frames_round_trip_witness:
  "read_request 3 = [0x00, 0x30, 0x00, 0x00, 0x03]
   \<and> write_request 3 0x147f = [0x00, 0x20, 0x7f, 0x14, 0x03]
   \<and> cm6206_read scripted 3 0 (start ([5], [(3, [0x20, 0x7f, 0x14])])) =
       (0, 0x147f, \<lparr>dev = ([], []), log = [Send [0x00, 0x30, 0x00, 0x00, 0x03] 5, Receive 5 3]\<rparr>)"
  using frames_round_trip [of 3 "0x147f" scripted "start ([5], [(3, [0x20, 0x7f, 0x14])])" 0
      "[]" "0x20" "[]" "([], [(3, [0x20, 0x7f, 0x14])])" "([], [])"]
  by (simp add: cm6206_read_def call_hid_write_def call_hid_read_def scripted_def start_def
      read_request_def write_request_def store_reply_def marker_guard_def c_neq_def
      decode_value_def)

text \<open>
  C4, as the code has it. A read transaction sends one 5-byte report and then, when the
  send returned 5, receives once; when the send fails it ends there. A write transaction
  sends one 5-byte report and never receives. Each transaction only appends its own
  events to the log of the calls made before it.
\<close>

theorem transaction_events:
  assumes "hid_write T (dev w) (read_request regnum) = (n, d1)"
    and "hid_read T d1 5 = ((m, reply), d2)"
    and "hid_write T (dev w) (write_request regnum value) = (k, d3)"
  shows "log (snd (snd (cm6206_read T regnum v w))) =
      log w @ (if n = 5 then [Send (read_request regnum) n, Receive 5 m]
               else [Send (read_request regnum) n])
    \<and> length (read_request regnum) = 5
    \<and> (n = 5 \<longrightarrow>
         send_then_receive (drop (length (log w)) (log (snd (snd (cm6206_read T regnum v w))))))
    \<and> log (snd (cm6206_write T regnum value w)) = log w @ [Send (write_request regnum value) k]
    \<and> length (write_request regnum value) = 5
    \<and> \<not> send_then_receive (drop (length (log w)) (log (snd (cm6206_write T regnum value w))))"
  by (simp add: cm6206_read_cases [OF assms(1,2)] cm6206_write_cases [OF assms(3)]
      send_then_receive_def read_request_def write_request_def)

theorem transaction_events_witness:
  "log (snd (snd (cm6206_read scripted 0 0 (start ([5], [(3, [0x20, 0x04, 0x20])]))))) =
      [Send [0x00, 0x30, 0x00, 0x00, 0x00] 5, Receive 5 3]
   \<and> log (snd (cm6206_write scripted 0 0x2004 (start ([5], [(3, [0x20, 0x04, 0x20])])))) =
      [Send [0x00, 0x20, 0x04, 0x20, 0x00] 5]"
  using transaction_events [of scripted "start ([5], [(3, [0x20, 0x04, 0x20])])" 0
      5 "([], [(3, [0x20, 0x04, 0x20])])" 3 "[0x20, 0x04, 0x20]" "([], [])" "0x2004"
      5 "([], [(3, [0x20, 0x04, 0x20])])" 0]
  by (simp add: scripted_def start_def read_request_def write_request_def)

text \<open>
  C4, as the specification states it, fails for the write transaction: a write of
  \<open>0x2004\<close> to register 0 that the device accepts sends its report and returns, with
  a reply waiting and no receive made.
\<close>

theorem cm6206_write_no_receive_counterexample:
  "\<not> send_then_receive
       (log (snd (cm6206_write scripted 0 0x2004 (start ([5], [(3, [0x20, 0x04, 0x20])])))))"
  by (simp add: cm6206_write_def call_hid_write_def scripted_def start_def write_request_def
      send_then_receive_def)

text \<open>
  C7. \<^verbatim>\<open>readAllRegisters\<close> makes one read transaction per register number, in the order
  0, 1, 2, 3, 4, 5: when it returns, the log has grown by exactly the six reads. When it
  does not return, some register \<open>k\<close> below 6 is named in the failure, the reads of the
  registers below \<open>k\<close> went through, the last request sent is the read of \<open>k\<close>, and
  nothing is sent after it. Whenever the reads of the registers below \<open>j\<close> succeed and
  the read of \<open>j\<close> fails, the run ends there in the failure for \<open>j\<close>, in the world that
  read left; no register buffer comes back.
\<close>

theorem readAllRegisters_trace:
  "(case readAllRegisters T regbuf w of
      Inr (regbuf', w') \<Rightarrow> log w' = log w @ concat (map read_events [0, 1, 2, 3, 4, 5])
    | Inl (f, w') \<Rightarrow>
        (\<exists>k es. k < 6 \<and> f = Read_failure k
           \<and> log w' = log w @ concat (map read_events [0..<k]) @ es
           \<and> requests es = [read_request (of_nat k)]))
   \<and> requests (concat (map read_events [0, 1, 2, 3, 4, 5])) =
        [[0x00, 0x30, 0x00, 0x00, 0], [0x00, 0x30, 0x00, 0x00, 1],
         [0x00, 0x30, 0x00, 0x00, 2], [0x00, 0x30, 0x00, 0x00, 3],
         [0x00, 0x30, 0x00, 0x00, 4], [0x00, 0x30, 0x00, 0x00, 5]]
   \<and> (j < 6 \<and> read_registers T [0..<j] regbuf w = Inr (regbuf1, w1)
        \<and> fst (cm6206_read T (of_nat j) (regbuf1 ! j) w1) < 0
      \<longrightarrow> readAllRegisters T regbuf w =
            Inl (Read_failure j, snd (snd (cm6206_read T (of_nat j) (regbuf1 ! j) w1))))"
  (is "?trace \<and> ?frames \<and> (?fails \<longrightarrow> ?aborts)")
proof -
  have frames: ?frames
    by (simp add: read_events_def read_request_def)
  have trace: ?trace
  proof (cases "readAllRegisters T regbuf w")
    case (Inl a)
    obtain f w' where a: "a = (f, w')" by (cases a)
    from Inl a have "read_registers T [0..<NUM_REGS] regbuf w = Inl (f, w')"
      by (simp add: readAllRegisters_def)
    from read_registers_Inl [OF this] obtain k es where
      k: "k < NUM_REGS" "f = Read_failure k"
        "log w' = log w @ concat (map read_events (take k [0..<NUM_REGS])) @ es"
        "requests es = [read_request (of_nat k)]"
      by auto
    from k(1) have "take k [0..<NUM_REGS] = [0..<k]"
      by simp
    with k have "k < 6 \<and> f = Read_failure k
         \<and> log w' = log w @ concat (map read_events [0..<k]) @ es
         \<and> requests es = [read_request (of_nat k)]"
      by (simp add: NUM_REGS_def)
    then show ?thesis
      unfolding Inl a by (auto simp del: upt_Suc)
  next
    case (Inr b)
    obtain regbuf' w' where b: "b = (regbuf', w')" by (cases b)
    from Inr b have "read_registers T [0..<NUM_REGS] regbuf w = Inr (regbuf', w')"
      by (simp add: readAllRegisters_def)
    from read_registers_Inr [OF this] show ?thesis
      unfolding Inr b by (simp add: register_numbers)
  qed
  have abort: ?aborts if ?fails
  proof -
    from that have "[0..<NUM_REGS] = [0..<j] @ j # [Suc j..<NUM_REGS]"
      by (simp add: upt_split NUM_REGS_def)
    then show ?thesis
      using that
      by (cases "cm6206_read T (of_nat j) (regbuf1 ! j) w1")
        (simp add: readAllRegisters_def read_registers_append)
  qed
  from trace frames abort show ?thesis
    by (intro conjI impI)
qed

theorem readAllRegisters_trace_witness:
  "readAllRegisters scripted [0, 0, 0, 0, 0, 0]
      (start ([5, 5, 5], [(3, [0x20, 0x00, 0x20]), (3, [0x20, 0x02, 0x30]), (2, [0x20, 0x04])])) =
    Inl (Read_failure 2,
      \<lparr>dev = ([], []),
       log = [Send [0x00, 0x30, 0x00, 0x00, 0] 5, Receive 5 3,
              Send [0x00, 0x30, 0x00, 0x00, 1] 5, Receive 5 3,
              Send [0x00, 0x30, 0x00, 0x00, 2] 5, Receive 5 2]\<rparr>)"
  using readAllRegisters_trace [where T = scripted and regbuf = "[0, 0, 0, 0, 0, 0]"
      and w = "start ([5, 5, 5],
        [(3, [0x20, 0x00, 0x20]), (3, [0x20, 0x02, 0x30]), (2, [0x20, 0x04])])"
      and j = 2 and ?regbuf1.0 = "[0x2000, 0x3002, 0, 0, 0, 0]"
      and ?w1.0 = "\<lparr>dev = ([5], [(2, [0x20, 0x04])]),
        log = [Send [0x00, 0x30, 0x00, 0x00, 0] 5, Receive 5 3,
               Send [0x00, 0x30, 0x00, 0x00, 1] 5, Receive 5 3]\<rparr>"]
  by (simp add: cm6206_read_def call_hid_write_def call_hid_read_def scripted_def start_def
      read_request_def store_reply_def marker_guard_def c_neq_def decode_value_def
      upt_rec)

text \<open>
  C8. The initialization block writes the table
  \<open>0x2004, 0x3000, 0xF800, 0x147F, 0x0000, 0x3000\<close> with six write transactions, to the
  registers 0, 1, 2, 3, 4, 5 in this order, and then reads all registers once. When the
  write to register \<open>k\<close> fails, the run ends in the write failure for \<open>k\<close>: the log
  holds the writes to the registers below \<open>k\<close>, each sent in full and none undone, then
  the failed write, and nothing more; no register above \<open>k\<close> is written and no register
  is read. Whenever the writes to the registers below \<open>j\<close> succeed and the write to
  \<open>j\<close> fails, the run ends there in the failure for \<open>j\<close>.
\<close>

theorem init_registers_trace:
  "(case init_registers T regbuf w of
      Inr (regbuf', w') \<Rightarrow>
        log w' = log w @ concat (map write_events [0, 1, 2, 3, 4, 5])
                   @ concat (map read_events [0, 1, 2, 3, 4, 5])
    | Inl (Write_failure k, w') \<Rightarrow>
        k < 6 \<and> (\<exists>r. r \<noteq> 5
          \<and> log w' = log w @ concat (map write_events [0..<k])
               @ [Send (write_request (of_nat k) (REG_INIT ! k)) r])
    | Inl (Read_failure k, w') \<Rightarrow>
        k < 6 \<and> (\<exists>es.
          log w' = log w @ concat (map write_events [0, 1, 2, 3, 4, 5])
               @ concat (map read_events [0..<k]) @ es
          \<and> requests es = [read_request (of_nat k)]))
   \<and> concat (map write_events [0, 1, 2, 3, 4, 5]) =
        [Send [0x00, 0x20, 0x04, 0x20, 0] 5, Send [0x00, 0x20, 0x00, 0x30, 1] 5,
         Send [0x00, 0x20, 0x00, 0xF8, 2] 5, Send [0x00, 0x20, 0x7f, 0x14, 3] 5,
         Send [0x00, 0x20, 0x00, 0x00, 4] 5, Send [0x00, 0x20, 0x00, 0x30, 5] 5]
   \<and> (j < 6 \<and> write_registers T [0..<j] w = Inr w1
        \<and> fst (cm6206_write T (of_nat j) (REG_INIT ! j) w1) < 0
      \<longrightarrow> init_registers T regbuf w =
             Inl (Write_failure j, snd (cm6206_write T (of_nat j) (REG_INIT ! j) w1))
          \<and> log w1 = log w @ concat (map write_events [0..<j])
          \<and> requests (log (snd (cm6206_write T (of_nat j) (REG_INIT ! j) w1))) =
              requests (log w1) @ [write_request (of_nat j) (REG_INIT ! j)])"
  (is "?trace \<and> ?frames \<and> (?fails \<longrightarrow> ?aborts)")
proof -
  have frames: ?frames
    by (simp add: write_events_def write_request_def REG_INIT_def)
  have trace: ?trace
  proof (cases "write_registers T [0..<NUM_REGS] w")
    case (Inl a)
    obtain f w' where a: "a = (f, w')" by (cases a)
    from write_all_Inl [OF Inl [unfolded a]] obtain k r where
      "k < 6" "f = Write_failure k" "r \<noteq> 5"
      "log w' = log w @ concat (map write_events [0..<k])
          @ [Send (write_request (of_nat k) (REG_INIT ! k)) r]"
      by blast
    then show ?thesis
      using Inl a by (auto simp: init_registers_def simp del: upt_Suc)
  next
    case (Inr w1)
    note writes = write_all_Inr [OF Inr]
    show ?thesis
    proof (cases "readAllRegisters T regbuf w1")
      case (Inl a)
      obtain f w' where a: "a = (f, w')" by (cases a)
      from readAllRegisters_Inl [OF Inl [unfolded a]] obtain k es where
        "k < 6" "f = Read_failure k"
        "log w' = log w1 @ concat (map read_events [0..<k]) @ es"
        "requests es = [read_request (of_nat k)]"
        by blast
      then show ?thesis
        using Inl a Inr writes by (auto simp: init_registers_def simp del: upt_Suc)
    next
      case (Inr b)
      obtain regbuf' w' where b: "b = (regbuf', w')" by (cases b)
      from readAllRegisters_Inr [OF Inr [unfolded b]] show ?thesis
        using Inr b \<open>write_registers T [0..<NUM_REGS] w = Inr w1\<close> writes
        by (simp add: init_registers_def)
    qed
  qed
  have abort: ?aborts if ?fails
  proof -
    obtain r w2 where step: "cm6206_write T (of_nat j) (REG_INIT ! j) w1 = (r, w2)"
      by (cases "cm6206_write T (of_nat j) (REG_INIT ! j) w1")
    from that have split: "[0..<NUM_REGS] = [0..<j] @ j # [Suc j..<NUM_REGS]"
      by (simp add: upt_split NUM_REGS_def)
    have exit: "init_registers T regbuf w = Inl (Write_failure j, w2)"
      using that step by (simp add: init_registers_def split write_registers_append)
    have before: "log w1 = log w @ concat (map write_events [0..<j])"
      using that write_registers_Inr [of T "[0..<j]" w w1] by simp
    have last: "requests (log w2) = requests (log w1) @ [write_request (of_nat j) (REG_INIT ! j)]"
      using cm6206_write_step [OF step] by (auto simp: requests_append)
    from exit before last show ?thesis
      by (simp add: step)
  qed
  have imp: "?fails \<longrightarrow> ?aborts"
    by (rule impI) (rule abort)
  show ?thesis
    by (rule conjI [OF trace conjI [OF frames imp]])
qed

theorem init_registers_trace_witness:
  "init_registers scripted [0, 0, 0, 0, 0, 0] (start ([5, 5, - 1], [])) =
    Inl (Write_failure 2,
      \<lparr>dev = ([], []),
       log = [Send [0x00, 0x20, 0x04, 0x20, 0] 5,
              Send [0x00, 0x20, 0x00, 0x30, 1] 5,
              Send [0x00, 0x20, 0x00, 0xF8, 2] (- 1)]\<rparr>)"
  using init_registers_trace [where T = scripted and regbuf = "[0, 0, 0, 0, 0, 0]"
      and w = "start ([5, 5, - 1], [])" and j = 2
      and ?w1.0 = "\<lparr>dev = ([- 1], []),
        log = [Send [0x00, 0x20, 0x04, 0x20, 0] 5, Send [0x00, 0x20, 0x00, 0x30, 1] 5]\<rparr>"]
  by (simp add: cm6206_write_def call_hid_write_def scripted_def start_def
      write_request_def REG_INIT_def upt_rec)

text \<open>
  C9. For every register and every field, the line is printed as default if and only
  if the bits of the raw value that the field selects equal the same bits of the
  register's default value: the one bit \<open>bitno\<close> for \<^verbatim>\<open>print_reg_bit_special\<close>, the
  \<open>numbits\<close> bits from \<open>firstbit\<close> for \<^verbatim>\<open>print_reg_bit_range\<close>. So two raw values that
  differ only in bits outside the field are classified alike, and print the same line.
\<close>

theorem field_classification:
  assumes "regnum < NUM_REGS"
  shows "(bitno < 16 \<longrightarrow>
       print_reg_bit_special regnum regval bitno lbl valuetxt =
         Inr (Bit_line
               (if bit regval bitno = bit (REG_DEFAULT ! regnum) bitno then [] else ANSI_BOLD)
               bitno lbl valuetxt)
       \<and> (bit regval bitno = bit other bitno \<longrightarrow>
           print_reg_bit_special regnum regval bitno lbl valuetxt =
           print_reg_bit_special regnum other bitno lbl valuetxt))
    \<and> (1 < numbits \<and> firstbit + numbits \<le> 16 \<longrightarrow>
       print_reg_bit_range regnum regval firstbit numbits lbl valuetxt =
         Inr (Range_line
               (if \<forall>i<numbits. bit regval (firstbit + i) = bit (REG_DEFAULT ! regnum) (firstbit + i)
                then [] else ANSI_BOLD)
               (firstbit + numbits - 1) firstbit lbl valuetxt)
       \<and> (\<forall>i<numbits. bit regval (firstbit + i) = bit (REG_DEFAULT ! regnum) (firstbit + i)) =
           (field_bits regval firstbit numbits = field_bits (REG_DEFAULT ! regnum) firstbit numbits)
       \<and> ((\<forall>i. firstbit \<le> i \<and> i < firstbit + numbits \<longrightarrow> bit regval i = bit other i) \<longrightarrow>
           print_reg_bit_range regnum regval firstbit numbits lbl valuetxt =
           print_reg_bit_range regnum other firstbit numbits lbl valuetxt))
    \<and> ANSI_BOLD \<noteq> []
    \<and> printed_default (Bit_line [] bitno lbl valuetxt)
    \<and> \<not> printed_default (Bit_line ANSI_BOLD bitno lbl valuetxt)
    \<and> printed_default (Range_line [] (firstbit + numbits - 1) firstbit lbl valuetxt)
    \<and> \<not> printed_default (Range_line ANSI_BOLD (firstbit + numbits - 1) firstbit lbl valuetxt)"
  (is "(?single \<longrightarrow> ?bit_line \<and> ?bit_same) \<and> (?multi \<longrightarrow> ?range_line \<and> ?sel \<and> ?range_same) \<and> ?rest")
proof -
  have bit_line: ?bit_line if ?single
    using assms that by (rule print_reg_bit_special_eq)
  have bit_same: ?bit_same if ?single
    using assms that by (simp add: print_reg_bit_special_eq)
  have sel: ?sel
    by (simp only: field_bits_eq_iff)
  have range_line: ?range_line if ?multi
    using assms that by (simp add: print_reg_bit_range_eq field_bits_eq_iff)
  have range_same: ?range_same if ?multi
  proof
    assume same: "\<forall>i. firstbit \<le> i \<and> i < firstbit + numbits \<longrightarrow> bit regval i = bit other i"
    have "field_bits regval firstbit numbits = field_bits other firstbit numbits"
      unfolding field_bits_eq_iff using same by simp
    with assms that show "print_reg_bit_range regnum regval firstbit numbits lbl valuetxt =
        print_reg_bit_range regnum other firstbit numbits lbl valuetxt"
      by (simp add: print_reg_bit_range_eq)
  qed
  have rest: ?rest
    by (simp add: ANSI_BOLD_nonempty)
  have one: "?single \<longrightarrow> ?bit_line \<and> ?bit_same"
  proof
    assume s: ?single
    show "?bit_line \<and> ?bit_same"
      by (rule conjI [OF bit_line [OF s] bit_same [OF s]])
  qed
  have two: "?multi \<longrightarrow> ?range_line \<and> ?sel \<and> ?range_same"
  proof
    assume m: ?multi
    show "?range_line \<and> ?sel \<and> ?range_same"
      by (rule conjI [OF range_line [OF m] conjI [OF sel range_same [OF m]]])
  qed
  show ?thesis
    by (rule conjI [OF one conjI [OF two rest]])
qed

theorem field_classification_witness:
  "print_reg_bit_special 0 0x2004 2 ''Copyright'' ''Not Asserted'' =
      Inr (Bit_line ANSI_BOLD 2 ''Copyright'' ''Not Asserted'')
   \<and> print_reg_bit_special 0 0x2004 3 ''Emphasis'' ''None'' =
      Inr (Bit_line [] 3 ''Emphasis'' ''None'')
   \<and> print_reg_bit_range 0 0x2004 4 8 ''Category code'' ''0'' =
      Inr (Range_line [] 11 4 ''Category code'' ''0'')
   \<and> print_reg_bit_range 0 0x2014 4 8 ''Category code'' ''1'' =
      Inr (Range_line ANSI_BOLD 11 4 ''Category code'' ''1'')
   \<and> print_reg_bit_range 0 0x2004 4 8 ''Category code'' ''0'' =
      print_reg_bit_range 0 0xA00F 4 8 ''Category code'' ''0''"
  using field_classification [of 0 2 "0x2004" "''Copyright''" "''Not Asserted''" "0x2004"
      8 4]
    field_classification [of 0 3 "0x2004" "''Emphasis''" "''None''" "0x2004" 8 4]
    field_classification [of 0 3 "0x2014" "''Category code''" "''1''" "0x2014" 8 4]
    field_classification [of 0 3 "0x2004" "''Category code''" "''0''" "0xA00F" 8 4]
  by (simp add: print_reg_bit_special_def print_reg_bit_range_def NUM_REGS_def REG_DEFAULT_def
      field_value_def field_mask_def mask_shift_def uadd_def usub_def ANSI_BOLD_def)

text \<open>
  C2, as the code has it. For an enumerated field of \<open>numbits\<close> bits from \<open>firstbit\<close>
  whose label array has its closing entry, the value extracted is
  \<open>(regval >> firstbit) AND mask\<close>, that is \<open>(regval div 2 ^ firstbit) mod 2 ^ numbits\<close>.
  The loop goes through the declared pairs in declared order and every matching pair
  overwrites the label chosen so far, so the label printed is that of the last pair
  whose value matches; when no pair matches it is the fallback label. When no value is
  declared twice, the last match is the first match.
\<close>

theorem enumerated_label_last_match:
  assumes "1 < numbits" and "firstbit + numbits \<le> 16" and "regnum < NUM_REGS"
    and "\<exists>l\<in>set labels. val l < 0"
  shows "uint (field_value regval firstbit (field_mask numbits)) =
        uint (field_bits regval firstbit numbits)
    \<and> unat (field_bits regval firstbit numbits) =
        (unat regval div 2 ^ firstbit) mod 2 ^ numbits
    \<and> match_labels labels regval firstbit (field_mask numbits) None =
        Inr (last_match_label (declared labels) (fallback_label labels)
               (uint (field_bits regval firstbit numbits)))
    \<and> (length (last_match_label (declared labels) (fallback_label labels)
                 (uint (field_bits regval firstbit numbits))) \<le> 127 \<longrightarrow>
        print_reg_bit_range_label False regnum regval firstbit numbits lbl labels =
        print_reg_bit_range regnum regval firstbit numbits lbl
          (last_match_label (declared labels) (fallback_label labels)
             (uint (field_bits regval firstbit numbits))))
    \<and> ((\<forall>p\<in>set (declared labels). fst p \<noteq> x) \<longrightarrow>
        last_match_label (declared labels) (fallback_label labels) x = fallback_label labels)
    \<and> (distinct (map fst (declared labels)) \<longrightarrow>
        last_match_label (declared labels) (fallback_label labels) x =
        first_match_label (declared labels) (fallback_label labels) x)"
  (is "?extract \<and> ?number \<and> ?loop \<and> (?fits \<longrightarrow> ?whole) \<and> (?unlisted \<longrightarrow> ?fallback)
       \<and> (?nodup \<longrightarrow> ?first)")
proof -
  from assms have n: "numbits \<le> 16" and f: "firstbit < 32"
    by simp_all
  have m: "field_mask numbits = mask numbits"
    using n by (rule field_mask_eq)
  have ext: "?extract"
    by (simp only: m uint_field_value)
  have number: "?number"
    by (rule unat_field_bits)
  have loop: "?loop"
    by (simp add: match_labels_eq [OF f assms(4)] ext last_match_label_def
        split: option.splits)
  have sh: "\<not> 32 \<le> mask_shift numbits"
    using n by (simp add: mask_shift_small)
  have whole: "?whole" if "?fits"
    using that sh by (simp add: print_reg_bit_range_label_def loop)
  have fallback: "?fallback" if "?unlisted"
  proof -
    from that have "find (\<lambda>p. fst p = x) (rev (declared labels)) = None"
      by (rule find_fst_None)
    then show ?thesis
      by (simp add: last_match_label_def)
  qed
  have first: "?first" if "?nodup"
    using that by (simp add: last_match_label_def first_match_label_def find_rev_distinct)
  have a: "?fits \<longrightarrow> ?whole"
    by (rule impI) (rule whole)
  have b: "?unlisted \<longrightarrow> ?fallback"
    by (rule impI) (rule fallback)
  have c: "?nodup \<longrightarrow> ?first"
    by (rule impI) (rule first)
  show ?thesis
    by (rule conjI [OF ext conjI [OF number conjI [OF loop conjI [OF a conjI [OF b c]]]]])
qed

theorem enumerated_label_last_match_witness:
  "print_reg_bit_range_label False 0 0x2004 12 3 ''SPDIF Out sample rate'' SPDIF_OUT_HZ =
      Inr (Range_line [] 14 12 ''SPDIF Out sample rate'' ''48 kHz'')
   \<and> print_reg_bit_range_label False 0 0x1004 12 3 ''SPDIF Out sample rate'' SPDIF_OUT_HZ =
      Inr (Range_line ANSI_BOLD 14 12 ''SPDIF Out sample rate'' ''Reserved'')
   \<and> declared SPDIF_OUT_HZ = [(0, ''44.1 kHz''), (2, ''48 kHz''), (3, ''32 kHz''), (6, ''96 kHz'')]
   \<and> fallback_label SPDIF_OUT_HZ = ''Reserved''
   \<and> first_match_label (declared SPDIF_OUT_HZ) (fallback_label SPDIF_OUT_HZ) 2 = ''48 kHz''"
  using enumerated_label_last_match [of 3 12 0 SPDIF_OUT_HZ "0x2004" "''SPDIF Out sample rate''" 2]
    enumerated_label_last_match [of 3 12 0 SPDIF_OUT_HZ "0x1004" "''SPDIF Out sample rate''" 1]
  by (simp add: printout_defs)

text \<open>
  C2, as the specification states it, fails when a value is declared twice: with the
  pairs \<open>(0, A)\<close>, \<open>(0, B)\<close> and the fallback \<open>R\<close>, the extracted value 0 prints as
  \<open>B\<close>, and the first match is \<open>A\<close>.
\<close>

theorem enumerated_label_first_match_counterexample:
  "print_reg_bit_range_label False 0 0x0000 12 3 ''SPDIF Out sample rate''
      [\<lparr>val = 0, label = ''A''\<rparr>, \<lparr>val = 0, label = ''B''\<rparr>, \<lparr>val = - 1, label = ''R''\<rparr>] =
      Inr (Range_line ANSI_BOLD 14 12 ''SPDIF Out sample rate'' ''B'')
   \<and> declared [\<lparr>val = 0, label = ''A''\<rparr>, \<lparr>val = 0, label = ''B''\<rparr>, \<lparr>val = - 1, label = ''R''\<rparr>] =
      [(0, ''A''), (0, ''B'')]
   \<and> uint (field_value 0x0000 12 (field_mask 3)) = 0
   \<and> first_match_label [(0, ''A''), (0, ''B'')] ''R'' 0 = ''A''"
  by (simp add: printout_defs)

end
